theory Spec2Isabelle
  imports Main "HOL-Library.Word"
begin

section \<open>The shop network of main.cpp\<close>

text \<open>
  The program keeps every \<open>thomas::shop\<close> on the free store and refers to it by pointer
  only: the map of the network holds \<open>shop *\<close>, and so does the neighbour vector of every
  shop. Two pointers are compared by address (\<open>std::find\<close> in \<open>reduce\<close>), so the model
  keeps an explicit store: an address is an index into the list of the objects allocated
  so far, and \<open>new\<close> appends to that list. No object is released before the network is
  destroyed at the end of \<open>main\<close>.

  Identifiers are \<open>uint64_t\<close> and are modelled as 64-bit words, as are the two counters
  the code advances with \<open>+=\<close> (\<open>counter\<close> of \<open>number_of_connections\<close> and \<open>impact\<close> of
  \<open>reduce\<close>), which wrap around. A value read from \<open>std::vector::size()\<close> is the length
  of the modelled list, a natural number.
\<close>

type_synonym addr = nat

record shop =
  "identifier" :: "64 word"
  connected_shops :: "addr list"

record impact_entry =
  impact :: "64 word"

text \<open>
  The state of the process: the allocated shops, and the member \<open>shops\<close> of the one
  network object. \<open>std::map\<close> keeps its entries in ascending key order with one entry
  per key; it is an association list kept in that order.
\<close>

record state =
  heap :: "shop list"
  shops :: "(64 word \<times> addr) list"

datatype failure =
    Header_Parse_Error
  | Shops_Out_Of_Range
  | Roads_Out_Of_Range
  | Line_Parse_Error
  | Front_Of_Empty
  | Dangling_Pointer

definition bind_r :: "failure + 'a \<Rightarrow> ('a \<Rightarrow> failure + 'b) \<Rightarrow> failure + 'b" where
  "bind_r m f = (case m of Inl e \<Rightarrow> Inl e | Inr x \<Rightarrow> f x)"

subsection \<open>std::map: at and insert\<close>

text \<open>\<open>std::map::at\<close> throws \<open>std::out_of_range\<close> for a missing key: the value \<open>None\<close>.\<close>

fun map_at :: "64 word \<Rightarrow> (64 word \<times> addr) list \<Rightarrow> addr option" where
  "map_at k [] = None"
| "map_at k ((k', v) # m) = (if k = k' then Some v else map_at k m)"

text \<open>\<open>std::map::insert\<close> places a new key in order and leaves an existing key alone.\<close>

fun map_insert :: "64 word \<Rightarrow> addr \<Rightarrow> (64 word \<times> addr) list \<Rightarrow> (64 word \<times> addr) list" where
  "map_insert k v [] = [(k, v)]"
| "map_insert k v ((k', v') # m) =
     (if k < k' then (k, v) # (k', v') # m
      else if k = k' then (k', v') # m
      else (k', v') # map_insert k v m)"

subsection \<open>The network\<close>

definition empty_network :: state where
  "empty_network = \<lparr>heap = [], shops = []\<rparr>"

definition shop_at :: "64 word \<Rightarrow> state \<Rightarrow> addr option" where
  "shop_at i st = map_at i (shops st)"

text \<open>\<open>new thomas::shop(i)\<close>: a fresh object with no neighbour, at a fresh address.\<close>

definition new_shop :: "64 word \<Rightarrow> shop list \<Rightarrow> addr \<times> shop list" where
  "new_shop i h = (length h, h @ [\<lparr>identifier = i, connected_shops = []\<rparr>])"

text \<open>\<open>p->get_connected_shops().push_back(q)\<close>; reading through a pointer to no object fails.\<close>

definition push_back :: "addr \<Rightarrow> addr \<Rightarrow> shop list \<Rightarrow> failure + shop list" where
  "push_back p q h =
     (if p < length h
      then Inr (h[p := (h ! p)\<lparr>connected_shops := connected_shops (h ! p) @ [q]\<rparr>])
      else Inl Dangling_Pointer)"

definition register_shop :: "addr \<Rightarrow> state \<Rightarrow> failure + state" where
  "register_shop p st =
     (if p < length (heap st)
      then Inr (st\<lparr>shops := map_insert (identifier (heap st ! p)) p (shops st)\<rparr>)
      else Inl Dangling_Pointer)"

definition size_at :: "shop list \<Rightarrow> addr \<Rightarrow> nat" where
  "size_at h p = length (connected_shops (h ! p))"

definition number_of_connections :: "state \<Rightarrow> failure + 64 word" where
  "number_of_connections st =
     (if list_all (\<lambda>(k, p). p < length (heap st)) (shops st)
      then Inr (fold (\<lambda>(k, p) counter.
                  fold (\<lambda>remote_shop counter. counter + 1) (connected_shops (heap st ! p)) counter)
                (shops st) 0)
      else Inl Dangling_Pointer)"

text \<open>
  \<open>operator<<\<close> writes one line per neighbour entry, with the identifiers of both ends;
  the model returns the pairs of identifiers.
\<close>

definition stream_out :: "state \<Rightarrow> failure + (64 word \<times> 64 word) list" where
  "stream_out st =
     (if list_all (\<lambda>(k, p). p < length (heap st) \<and>
             list_all (\<lambda>r. r < length (heap st)) (connected_shops (heap st ! p))) (shops st)
      then Inr (concat (map (\<lambda>(k, p).
                  map (\<lambda>remote_shop. (identifier (heap st ! p), identifier (heap st ! remote_shop)))
                      (connected_shops (heap st ! p))) (shops st)))
      else Inl Dangling_Pointer)"

subsection \<open>reduce\<close>

text \<open>
  \<open>std::sort\<close> with the comparator \<open>f lhs > f rhs\<close>: descending in \<open>f\<close>. The order it
  leaves among elements of equal \<open>f\<close> is unspecified; the model inserts each element
  in front of the first one that is smaller. What is proved of \<open>reduce\<close> below rests
  only on the sorted vector being a rearrangement of the input in descending order.
\<close>

fun insert_desc :: "('a \<Rightarrow> 'b::linorder) \<Rightarrow> 'a \<Rightarrow> 'a list \<Rightarrow> 'a list" where
  "insert_desc f x [] = [x]"
| "insert_desc f x (y # ys) = (if f y < f x then x # y # ys else y # insert_desc f x ys)"

definition sort_desc :: "('a \<Rightarrow> 'b::linorder) \<Rightarrow> 'a list \<Rightarrow> 'a list" where
  "sort_desc f xs = foldr (insert_desc f) xs []"

text \<open>The body of the lambda that computes the external impact of one element.\<close>

definition impact_of :: "shop list \<Rightarrow> addr list \<Rightarrow> addr \<Rightarrow> impact_entry" where
  "impact_of h linear_shops el =
     \<lparr>impact = fold (\<lambda>each_connection imp.
                  if each_connection \<notin> set linear_shops
                  then imp + of_nat (size_at h each_connection) else imp)
                (connected_shops (h ! el)) 0\<rparr>"

text \<open>
  \<open>reduce\<close> works on a local vector of the pointers in the map and a local vector of
  impact entries; it writes to neither the map nor any shop. \<open>front()\<close> of an empty
  vector has no defined behaviour and is the failure \<open>Front_Of_Empty\<close>. The comparator of
  the first sort reads through every pointer of the vector, and the impact lambda reads
  through every neighbour that is not in the vector.
\<close>

definition reduce :: "state \<Rightarrow> failure + (nat \<times> state)" where
  "reduce st =
     (let h = heap st;
          linear_shops = map snd (shops st)
      in if \<not> list_all (\<lambda>p. p < length h) linear_shops then Inl Dangling_Pointer
      else
        let linear_shops = sort_desc (size_at h) linear_shops
        in case linear_shops of
             [] \<Rightarrow> Inl Front_Of_Empty
           | front # _ \<Rightarrow>
               let threshold = size_at h front;
                   linear_shops = filter (\<lambda>el. \<not> size_at h el < threshold) linear_shops
               in if \<not> list_all (\<lambda>el. list_all (\<lambda>c. c < length h) (connected_shops (h ! el)))
                          linear_shops
                  then Inl Dangling_Pointer
                  else
                    let impacts = map (impact_of h linear_shops) linear_shops;
                        impacts = sort_desc impact impacts
                    in (case impacts of
                          [] \<Rightarrow> Inl Front_Of_Empty
                        | ifront # _ \<Rightarrow>
                            let required_impact = impact ifront;
                                impacts = filter (\<lambda>el. \<not> impact el < required_impact) impacts
                            in if length impacts < 2 then Inr (0, st)
                               else Inr (length impacts, st)))"

subsection \<open>main\<close>

text \<open>
  The two \<open>push_back\<close> calls every branch of the edge insertion makes:
  the destination receives the source first, then the source the destination.
\<close>

definition link :: "addr \<Rightarrow> addr \<Rightarrow> shop list \<Rightarrow> failure + shop list" where
  "link dest shop h = bind_r (push_back dest shop h) (push_back shop dest)"

text \<open>
  The nested \<open>try\<close>/\<open>catch\<close> of one accepted line. A failed \<open>shop_at\<close> is the
  \<open>std::out_of_range\<close> branch.
\<close>

definition add_road :: "64 word \<Rightarrow> 64 word \<Rightarrow> state \<Rightarrow> failure + state" where
  "add_road shop_id road_to st =
     (case shop_at shop_id st of
        Some shop \<Rightarrow>
          (case shop_at road_to st of
             Some dest \<Rightarrow>
               bind_r (link dest shop (heap st)) (\<lambda>h. Inr (st\<lparr>heap := h\<rparr>))
           | None \<Rightarrow>
               (let (new_dest, h0) = new_shop road_to (heap st)
                in bind_r (link new_dest shop h0)
                     (\<lambda>h. register_shop new_dest (st\<lparr>heap := h\<rparr>))))
      | None \<Rightarrow>
          (let (new_shop_p, h0) = new_shop shop_id (heap st)
           in bind_r
                (case shop_at road_to st of
                   Some dest \<Rightarrow>
                     bind_r (link dest new_shop_p h0) (\<lambda>h. Inr (st\<lparr>heap := h\<rparr>))
                 | None \<Rightarrow>
                     (let (new_dest, h1) = new_shop road_to h0
                      in bind_r (link new_dest new_shop_p h1)
                           (\<lambda>h. register_shop new_dest (st\<lparr>heap := h\<rparr>))))
                (register_shop new_shop_p)))"

text \<open>
  The input is taken after \<open>sscanf\<close>: the header and every line are \<open>None\<close> when the
  conversion did not yield two numbers, and the pair of numbers otherwise. The loop reads
  at most \<open>num_roads\<close> lines and stops early when the file ends. The checks of the
  argument count and of the opened file come before any of this and are left out; every
  \<open>std::terminate\<close> after them is a failure value.
\<close>

fun read_roads :: "nat \<Rightarrow> (64 word \<times> 64 word) option list \<Rightarrow> state \<Rightarrow> failure + state" where
  "read_roads 0 ls st = Inr st"
| "read_roads (Suc n) [] st = Inr st"
| "read_roads (Suc n) (None # ls) st = Inl Line_Parse_Error"
| "read_roads (Suc n) (Some (shop_id, road_to) # ls) st =
     (if shop_id < 1 \<or> shop_id > 1000 then read_roads n ls st
      else bind_r (add_road shop_id road_to st) (read_roads n ls))"

definition main :: "(64 word \<times> 64 word) option \<Rightarrow> (64 word \<times> 64 word) option list \<Rightarrow> failure + nat" where
  "main header ls =
     (case header of
        None \<Rightarrow> Inl Header_Parse_Error
      | Some (num_shops, num_roads) \<Rightarrow>
          if num_shops < 2 \<or> num_shops > 1000 then Inl Shops_Out_Of_Range
          else if num_roads < 1 \<or> num_roads > 1000 then Inl Roads_Out_Of_Range
          else bind_r (read_roads (unat num_roads) ls empty_network) (\<lambda>network.
               bind_r (stream_out network) (\<lambda>_.
               bind_r (number_of_connections network) (\<lambda>_.
               bind_r (reduce network) (\<lambda>(r, _). Inr r)))))"

subsection \<open>The reference algorithm of the specification\<close>

text \<open>
  The reduction as the specification words it, over node identities (addresses): the
  degree of a node is the length of its neighbour sequence, \<open>D\<close> the largest degree of a
  stored node, the core the stored nodes of degree \<open>D\<close>, the impact of a core node the
  sum of the degrees of its neighbour occurrences outside the core, \<open>I\<close> the largest
  impact in the core, and the result the number of core nodes of impact \<open>I\<close> when there
  are at least two of them, and 0 otherwise.
\<close>

definition degree :: "state \<Rightarrow> addr \<Rightarrow> nat" where
  "degree st v = length (connected_shops (heap st ! v))"

definition node_set :: "state \<Rightarrow> addr set" where
  "node_set st = snd ` set (shops st)"

definition hub_threshold :: "state \<Rightarrow> nat" where
  "hub_threshold st = Max (degree st ` node_set st)"

definition core_set :: "state \<Rightarrow> addr set" where
  "core_set st = {v \<in> node_set st. degree st v = hub_threshold st}"

definition external_impact :: "state \<Rightarrow> addr \<Rightarrow> nat" where
  "external_impact st v =
     sum_list (map (degree st) (filter (\<lambda>w. w \<notin> core_set st) (connected_shops (heap st ! v))))"

definition impact_threshold :: "state \<Rightarrow> nat" where
  "impact_threshold st = Max (external_impact st ` core_set st)"

definition winners :: "state \<Rightarrow> addr set" where
  "winners st = {v \<in> core_set st. external_impact st v = impact_threshold st}"

definition reference_result :: "state \<Rightarrow> nat" where
  "reference_result st = (if 2 \<le> card (winners st) then card (winners st) else 0)"

subsection \<open>Well-formed and finalized stores\<close>

text \<open>
  Every pointer kept in a neighbour vector refers to an allocated shop.
\<close>

definition valid_pointers :: "shop list \<Rightarrow> bool" where
  "valid_pointers h = list_all (\<lambda>s. list_all (\<lambda>c. c < length h) (connected_shops s)) h"

text \<open>
  The map is in strictly ascending key order, and every entry points to an allocated shop
  that carries the entry's key as its identifier.
\<close>

definition entries_ok :: "shop list \<Rightarrow> (64 word \<times> addr) list \<Rightarrow> bool" where
  "entries_ok h m = list_all (\<lambda>(k, p). p < length h \<and> identifier (h ! p) = k) m"

definition store_ok :: "state \<Rightarrow> bool" where
  "store_ok st = (sorted_wrt (<) (map fst (shops st)) \<and> entries_ok (heap st) (shops st))"

definition valid_network :: "state \<Rightarrow> bool" where
  "valid_network st = (valid_pointers (heap st) \<and> store_ok st)"

text \<open>The number of neighbour entries over all allocated shops.\<close>

definition heap_links :: "shop list \<Rightarrow> nat" where
  "heap_links h = sum_list (map (\<lambda>s. length (connected_shops s)) h)"

text \<open>
  The number of neighbour entries over the shops that are in the map, and the number of
  lines the loop hands to the edge insertion.
\<close>

definition store_links :: "state \<Rightarrow> nat" where
  "store_links st = sum_list (map (size_at (heap st)) (map snd (shops st)))"

fun accepted :: "nat \<Rightarrow> (64 word \<times> 64 word) option list \<Rightarrow> nat" where
  "accepted 0 ls = 0"
| "accepted (Suc n) [] = 0"
| "accepted (Suc n) (None # ls) = 0"
| "accepted (Suc n) (Some (shop_id, road_to) # ls) =
     (if shop_id < 1 \<or> shop_id > 1000 then accepted n ls else Suc (accepted n ls))"

text \<open>
  A finalized store is a well-formed one of the size \<open>main\<close> can build: the header check
  admits at most 1000 lines, and a line adds two neighbour entries.
\<close>

definition finalized :: "state \<Rightarrow> bool" where
  "finalized st = (valid_network st \<and> heap_links (heap st) \<le> 2000)"

text \<open>
  The state that one road between two different shops \<open>a\<close> and \<open>b\<close> leaves: the source
  shop is allocated first, the destination second and registered first.
\<close>

definition two_shops :: "64 word \<Rightarrow> 64 word \<Rightarrow> state" where
  "two_shops a b =
     \<lparr>heap = [\<lparr>identifier = a, connected_shops = [1]\<rparr>,
              \<lparr>identifier = b, connected_shops = [0]\<rparr>],
      shops = (if a < b then [(a, 0), (b, 1)] else [(b, 1), (a, 0)])\<rparr>"

text \<open>
  The state \<open>main\<close> builds from the lines \<open>1 2\<close>, \<open>1 3\<close>, \<open>1 4\<close>, \<open>2 5\<close>, \<open>2 6\<close>
  (scenario B of the specification).
\<close>

definition scenario_b :: state where
  "scenario_b =
     \<lparr>heap = [\<lparr>identifier = 1, connected_shops = [1, 2, 3]\<rparr>,
              \<lparr>identifier = 2, connected_shops = [0, 4, 5]\<rparr>,
              \<lparr>identifier = 3, connected_shops = [0]\<rparr>,
              \<lparr>identifier = 4, connected_shops = [0]\<rparr>,
              \<lparr>identifier = 5, connected_shops = [1]\<rparr>,
              \<lparr>identifier = 6, connected_shops = [1]\<rparr>],
      shops = [(1, 0), (2, 1), (3, 2), (4, 3), (5, 4), (6, 5)]\<rparr>"

section \<open>Properties\<close>

subsection \<open>The map\<close>

lemma set_map_insert: "set (map_insert k v m) \<subseteq> insert (k, v) (set m)"
  by (induction m) (auto split: if_splits)

lemma sorted_map_insert:
  "sorted_wrt (<) (map fst m) \<Longrightarrow> sorted_wrt (<) (map fst (map_insert k v m))"
proof (induction m)
  case Nil
  then show ?case by simp
next
  case (Cons e m)
  obtain k' v' where e: "e = (k', v')" by (cases e)
  have sub: "\<forall>x\<in>set (map_insert k v m). x = (k, v) \<or> x \<in> set m"
    using set_map_insert [of k v m] by auto
  show ?case using Cons sub unfolding e by (auto simp: not_less)
qed

lemma map_at_None_iff: "map_at k m = None \<longleftrightarrow> k \<notin> fst ` set m"
  by (induction m) (auto split: if_splits)

lemma map_at_Some_mem: "map_at k m = Some q \<Longrightarrow> (k, q) \<in> set m"
  by (induction m) (auto split: if_splits)

lemma map_at_insert_other: "k \<noteq> k' \<Longrightarrow> map_at k (map_insert k' v m) = map_at k m"
  by (induction m) (auto split: if_splits)

lemma map_at_insert_new: "map_at k m = None \<Longrightarrow> map_at k (map_insert k v m) = Some v"
  by (induction m) (auto split: if_splits)

lemma map_insert_present:
  "sorted_wrt (<) (map fst m) \<Longrightarrow> map_at k m = Some q \<Longrightarrow> map_insert k v m = m"
proof (induction m)
  case Nil
  then show ?case by simp
next
  case (Cons e m)
  obtain k' v' where e: "e = (k', v')" by (cases e)
  show ?case
  proof (cases "k = k'")
    case True
    then show ?thesis by (simp add: e)
  next
    case False
    with Cons.prems have at: "map_at k m = Some q" by (simp add: e)
    then have "(k, q) \<in> set m" by (rule map_at_Some_mem)
    with Cons.prems have "k' < k" by (force simp: e)
    then have "\<not> k < k'" by simp
    with Cons at False show ?thesis by (simp add: e)
  qed
qed

lemma map_at_insert_old:
  "sorted_wrt (<) (map fst m) \<Longrightarrow> map_at k m = Some q \<Longrightarrow>
   map_at k (map_insert k' v m) = Some q"
  by (cases "k = k'") (simp_all add: map_insert_present map_at_insert_other)

subsection \<open>The free store\<close>

lemma push_back_Inr:
  "p < length h \<Longrightarrow>
   push_back p q h = Inr (h[p := (h ! p)\<lparr>connected_shops := connected_shops (h ! p) @ [q]\<rparr>])"
  by (simp add: push_back_def)

lemma heap_links_push:
  assumes "p < length h"
  shows "heap_links (h[p := (h ! p)\<lparr>connected_shops := connected_shops (h ! p) @ [q]\<rparr>]) = Suc (heap_links h)"
proof -
  let ?f = "\<lambda>s. length (connected_shops s)"
  have "sum_list ((map ?f h)[p := Suc (?f (h ! p))]) = sum_list (map ?f h) + Suc (?f (h ! p)) - (map ?f h) ! p"
    using assms by (simp add: sum_list_update)
  moreover have "?f (h ! p) \<le> sum_list (map ?f h)"
    using assms by (simp add: member_le_sum_list)
  ultimately show ?thesis using assms by (simp add: heap_links_def map_update)
qed

lemma valid_pointers_push:
  assumes "valid_pointers h" "p < length h" "q < length h"
  shows "valid_pointers (h[p := (h ! p)\<lparr>connected_shops := connected_shops (h ! p) @ [q]\<rparr>])"
proof -
  have "list_all (\<lambda>c. c < length h) (connected_shops s)"
    if "s \<in> set (h[p := (h ! p)\<lparr>connected_shops := connected_shops (h ! p) @ [q]\<rparr>])" for s
  proof -
    from that set_update_subset_insert
    have "s = (h ! p)\<lparr>connected_shops := connected_shops (h ! p) @ [q]\<rparr> \<or> s \<in> set h"
      by fastforce
    moreover from assms nth_mem [of p h]
    have "\<forall>c\<in>set (connected_shops (h ! p)). c < length h"
      unfolding valid_pointers_def list_all_iff by blast
    ultimately show ?thesis using assms
      by (auto simp: valid_pointers_def list_all_iff)
  qed
  then show ?thesis by (simp add: valid_pointers_def list_all_iff)
qed

lemma valid_pointers_new:
  "valid_pointers h \<Longrightarrow> valid_pointers (h @ [\<lparr>identifier = i, connected_shops = []\<rparr>])"
  unfolding valid_pointers_def list_all_iff by (auto intro: less_SucI)

lemma heap_links_new:
  "heap_links (h @ [\<lparr>identifier = i, connected_shops = []\<rparr>]) = heap_links h"
  by (simp add: heap_links_def)

subsection \<open>Inserting an edge keeps the store well formed\<close>

lemma entries_ok_push:
  "entries_ok h m \<Longrightarrow>
   entries_ok (h[p := (h ! p)\<lparr>connected_shops := connected_shops (h ! p) @ [q]\<rparr>]) m"
proof -
  assume ok: "entries_ok h m"
  have "b < length h \<and> identifier (h[p := (h ! p)\<lparr>connected_shops := connected_shops (h ! p) @ [q]\<rparr>] ! b) = a"
    if "(a, b) \<in> set m" for a b
  proof -
    from ok that have "b < length h \<and> identifier (h ! b) = a"
      unfolding entries_ok_def list_all_iff by blast
    then show ?thesis by (cases "b = p") simp_all
  qed
  then show ?thesis unfolding entries_ok_def list_all_iff by auto
qed

lemma entries_ok_new:
  "entries_ok h m \<Longrightarrow> entries_ok (h @ [s]) m"
proof -
  assume ok: "entries_ok h m"
  have "b < length (h @ [s]) \<and> identifier ((h @ [s]) ! b) = a" if "(a, b) \<in> set m" for a b
  proof -
    from ok that have "b < length h \<and> identifier (h ! b) = a"
      unfolding entries_ok_def list_all_iff by blast
    then show ?thesis by (simp add: nth_append)
  qed
  then show ?thesis unfolding entries_ok_def list_all_iff by blast
qed

lemma entries_ok_insert:
  "entries_ok h m \<Longrightarrow> p < length h \<Longrightarrow> entries_ok h (map_insert (identifier (h ! p)) p m)"
  unfolding entries_ok_def list_all_iff using set_map_insert [of "identifier (h ! p)" p m] by auto

lemma link_Inr:
  assumes "p < length h" "q < length h"
  shows "\<exists>h'. link p q h = Inr h' \<and> length h' = length h \<and>
           (\<forall>i. identifier (h' ! i) = identifier (h ! i)) \<and>
           heap_links h' = heap_links h + 2 \<and>
           (valid_pointers h \<longrightarrow> valid_pointers h') \<and>
           (\<forall>m. entries_ok h m \<longrightarrow> entries_ok h' m)"
proof -
  let ?h1 = "h[p := (h ! p)\<lparr>connected_shops := connected_shops (h ! p) @ [q]\<rparr>]"
  let ?h2 = "?h1[q := (?h1 ! q)\<lparr>connected_shops := connected_shops (?h1 ! q) @ [p]\<rparr>]"
  have l1: "length ?h1 = length h" by simp
  have "link p q h = Inr ?h2"
    using assms by (simp add: link_def bind_r_def push_back_Inr)
  moreover have "\<forall>i. identifier (?h2 ! i) = identifier (h ! i)"
    using assms by (auto simp: nth_list_update)
  moreover have "heap_links ?h2 = heap_links h + 2"
    using assms heap_links_push [of q ?h1 p] heap_links_push [of p h q] by simp
  moreover have "valid_pointers h \<longrightarrow> valid_pointers ?h2"
    using assms valid_pointers_push [of ?h1 q p] valid_pointers_push [of h p q] by simp
  moreover have "\<forall>m. entries_ok h m \<longrightarrow> entries_ok ?h2 m"
    using entries_ok_push [of ?h1 _ q p] entries_ok_push [of h _ p q] by blast
  ultimately show ?thesis by (intro exI [of _ ?h2]) simp
qed

lemma entry_valid:
  "store_ok st \<Longrightarrow> shop_at k st = Some p \<Longrightarrow> p < length (heap st) \<and> identifier (heap st ! p) = k"
  unfolding store_ok_def entries_ok_def list_all_iff shop_at_def
  by (auto dest!: map_at_Some_mem)

lemma register_shop_ok:
  assumes "store_ok st" "p < length (heap st)"
  shows "register_shop p st = Inr (st\<lparr>shops := map_insert (identifier (heap st ! p)) p (shops st)\<rparr>) \<and>
         store_ok (st\<lparr>shops := map_insert (identifier (heap st ! p)) p (shops st)\<rparr>)"
  using assms by (simp add: register_shop_def store_ok_def sorted_map_insert entries_ok_insert)

lemma add_road_both:
  assumes v: "valid_network st" and s: "shop_at shop_id st = Some p" and r: "shop_at road_to st = Some q"
  shows "\<exists>h'. add_road shop_id road_to st = Inr (st\<lparr>heap := h'\<rparr>) \<and> valid_network (st\<lparr>heap := h'\<rparr>) \<and>
           length h' = length (heap st) \<and> heap_links h' = heap_links (heap st) + 2 \<and>
           link q p (heap st) = Inr h'"
proof -
  from v have ok: "store_ok st" and vp: "valid_pointers (heap st)" by (simp_all add: valid_network_def)
  from entry_valid [OF ok s] entry_valid [OF ok r]
  have p: "p < length (heap st)" and q: "q < length (heap st)" by simp_all
  from link_Inr [OF q p] obtain h' where
    h': "link q p (heap st) = Inr h'" "length h' = length (heap st)"
        "heap_links h' = heap_links (heap st) + 2" "valid_pointers h'"
        "entries_ok h' (shops st)"
    using vp ok by (auto simp: store_ok_def)
  have "add_road shop_id road_to st = Inr (st\<lparr>heap := h'\<rparr>)"
    using s r h'(1) by (simp add: add_road_def bind_r_def)
  moreover have "valid_network (st\<lparr>heap := h'\<rparr>)"
    using h' ok by (simp add: valid_network_def store_ok_def)
  ultimately show ?thesis using h' by blast
qed

lemma add_road_new_dest:
  assumes v: "valid_network st" and s: "shop_at shop_id st = Some p" and r: "shop_at road_to st = None"
  shows "\<exists>h'. add_road shop_id road_to st =
              Inr \<lparr>heap = h', shops = map_insert road_to (length (heap st)) (shops st)\<rparr> \<and>
           valid_network \<lparr>heap = h', shops = map_insert road_to (length (heap st)) (shops st)\<rparr> \<and>
           length h' = Suc (length (heap st)) \<and> heap_links h' = heap_links (heap st) + 2 \<and>
           link (length (heap st)) p (heap st @ [\<lparr>identifier = road_to, connected_shops = []\<rparr>]) =
             Inr h'"
proof -
  let ?n = "length (heap st)"
  let ?h0 = "heap st @ [\<lparr>identifier = road_to, connected_shops = []\<rparr>]"
  from v have ok: "store_ok st" and vp: "valid_pointers (heap st)" by (simp_all add: valid_network_def)
  from entry_valid [OF ok s] have p: "p < length ?h0" by simp
  have n: "?n < length ?h0" by simp
  have e0: "entries_ok ?h0 (shops st)" using ok by (simp add: store_ok_def entries_ok_new)
  from link_Inr [OF n p] obtain h' where
    h': "link ?n p ?h0 = Inr h'" "length h' = length ?h0"
        "\<forall>i. identifier (h' ! i) = identifier (?h0 ! i)"
        "heap_links h' = heap_links ?h0 + 2" "valid_pointers h'"
        "entries_ok h' (shops st)"
    using vp e0 valid_pointers_new [of "heap st" road_to] by blast
  let ?st1 = "st\<lparr>heap := h'\<rparr>"
  have ok1: "store_ok ?st1" using ok h'(6) by (simp add: store_ok_def)
  have id: "identifier (heap ?st1 ! ?n) = road_to" using h'(3) by simp
  have n1: "?n < length (heap ?st1)" using h'(2) by simp
  from register_shop_ok [OF ok1 n1]
  have reg: "register_shop ?n ?st1 = Inr (?st1\<lparr>shops := map_insert road_to ?n (shops st)\<rparr>)"
    and ok2: "store_ok (?st1\<lparr>shops := map_insert road_to ?n (shops st)\<rparr>)"
    using id by simp_all
  have eq: "?st1\<lparr>shops := map_insert road_to ?n (shops st)\<rparr> =
        \<lparr>heap = h', shops = map_insert road_to ?n (shops st)\<rparr>" by simp
  have "add_road shop_id road_to st = Inr \<lparr>heap = h', shops = map_insert road_to ?n (shops st)\<rparr>"
    using s r h'(1) reg by (simp add: add_road_def bind_r_def new_shop_def)
  moreover have "valid_network \<lparr>heap = h', shops = map_insert road_to ?n (shops st)\<rparr>"
    using ok2 h'(5) unfolding eq by (simp add: valid_network_def)
  ultimately show ?thesis using h' by (auto simp: heap_links_new)
qed

lemma add_road_new_shop:
  assumes v: "valid_network st" and s: "shop_at shop_id st = None" and r: "shop_at road_to st = Some q"
  shows "\<exists>h'. add_road shop_id road_to st =
              Inr \<lparr>heap = h', shops = map_insert shop_id (length (heap st)) (shops st)\<rparr> \<and>
           valid_network \<lparr>heap = h', shops = map_insert shop_id (length (heap st)) (shops st)\<rparr> \<and>
           length h' = Suc (length (heap st)) \<and> heap_links h' = heap_links (heap st) + 2 \<and>
           link q (length (heap st)) (heap st @ [\<lparr>identifier = shop_id, connected_shops = []\<rparr>]) =
             Inr h'"
proof -
  let ?n = "length (heap st)"
  let ?h0 = "heap st @ [\<lparr>identifier = shop_id, connected_shops = []\<rparr>]"
  from v have ok: "store_ok st" and vp: "valid_pointers (heap st)" by (simp_all add: valid_network_def)
  from entry_valid [OF ok r] have q: "q < length ?h0" by simp
  have n: "?n < length ?h0" by simp
  have e0: "entries_ok ?h0 (shops st)" using ok by (simp add: store_ok_def entries_ok_new)
  from link_Inr [OF q n] obtain h' where
    h': "link q ?n ?h0 = Inr h'" "length h' = length ?h0"
        "\<forall>i. identifier (h' ! i) = identifier (?h0 ! i)"
        "heap_links h' = heap_links ?h0 + 2" "valid_pointers h'"
        "entries_ok h' (shops st)"
    using vp e0 valid_pointers_new [of "heap st" shop_id] by blast
  let ?st1 = "st\<lparr>heap := h'\<rparr>"
  have ok1: "store_ok ?st1" using ok h'(6) by (simp add: store_ok_def)
  have id: "identifier (heap ?st1 ! ?n) = shop_id" using h'(3) by simp
  have n1: "?n < length (heap ?st1)" using h'(2) by simp
  from register_shop_ok [OF ok1 n1]
  have reg: "register_shop ?n ?st1 = Inr (?st1\<lparr>shops := map_insert shop_id ?n (shops st)\<rparr>)"
    and ok2: "store_ok (?st1\<lparr>shops := map_insert shop_id ?n (shops st)\<rparr>)"
    using id by simp_all
  have eq: "?st1\<lparr>shops := map_insert shop_id ?n (shops st)\<rparr> =
        \<lparr>heap = h', shops = map_insert shop_id ?n (shops st)\<rparr>" by simp
  have "add_road shop_id road_to st = Inr \<lparr>heap = h', shops = map_insert shop_id ?n (shops st)\<rparr>"
    using s r h'(1) reg by (simp add: add_road_def bind_r_def new_shop_def)
  moreover have "valid_network \<lparr>heap = h', shops = map_insert shop_id ?n (shops st)\<rparr>"
    using ok2 h'(5) unfolding eq by (simp add: valid_network_def)
  ultimately show ?thesis using h' by (auto simp: heap_links_new)
qed

lemma add_road_new_both:
  assumes v: "valid_network st" and s: "shop_at shop_id st = None" and r: "shop_at road_to st = None"
  shows "\<exists>h'. add_road shop_id road_to st =
              Inr \<lparr>heap = h', shops = map_insert shop_id (length (heap st))
                                       (map_insert road_to (Suc (length (heap st))) (shops st))\<rparr> \<and>
           valid_network \<lparr>heap = h', shops = map_insert shop_id (length (heap st))
                                       (map_insert road_to (Suc (length (heap st))) (shops st))\<rparr> \<and>
           length h' = Suc (Suc (length (heap st))) \<and> heap_links h' = heap_links (heap st) + 2 \<and>
           link (Suc (length (heap st))) (length (heap st))
             ((heap st @ [\<lparr>identifier = shop_id, connected_shops = []\<rparr>]) @
              [\<lparr>identifier = road_to, connected_shops = []\<rparr>]) = Inr h'"
proof -
  let ?n = "length (heap st)"
  let ?h0 = "heap st @ [\<lparr>identifier = shop_id, connected_shops = []\<rparr>]"
  let ?h1 = "?h0 @ [\<lparr>identifier = road_to, connected_shops = []\<rparr>]"
  from v have ok: "store_ok st" and vp: "valid_pointers (heap st)" by (simp_all add: valid_network_def)
  have n: "?n < length ?h1" and m: "Suc ?n < length ?h1" by simp_all
  have e1: "entries_ok ?h1 (shops st)"
    using ok by (intro entries_ok_new) (simp add: store_ok_def)
  have vp1: "valid_pointers ?h1"
    using vp by (intro valid_pointers_new)
  from link_Inr [OF m n] obtain h' where
    h': "link (Suc ?n) ?n ?h1 = Inr h'" "length h' = length ?h1"
        "\<forall>i. identifier (h' ! i) = identifier (?h1 ! i)"
        "heap_links h' = heap_links ?h1 + 2" "valid_pointers h'"
        "entries_ok h' (shops st)"
    using vp1 e1 by blast
  let ?st1 = "st\<lparr>heap := h'\<rparr>"
  let ?m1 = "map_insert road_to (Suc ?n) (shops st)"
  let ?st2 = "?st1\<lparr>shops := ?m1\<rparr>"
  let ?m2 = "map_insert shop_id ?n ?m1"
  have ok1: "store_ok ?st1" using ok h'(6) by (simp add: store_ok_def)
  have id1: "identifier (heap ?st1 ! Suc ?n) = road_to" using h'(3) by (simp add: nth_append)
  have id0: "identifier (heap ?st2 ! ?n) = shop_id" using h'(3) by (simp add: nth_append)
  have m1: "Suc ?n < length (heap ?st1)" using h'(2) by simp
  have n2: "?n < length (heap ?st2)" using h'(2) by simp
  from register_shop_ok [OF ok1 m1]
  have reg1: "register_shop (Suc ?n) ?st1 = Inr ?st2" and ok2: "store_ok ?st2"
    using id1 by simp_all
  from register_shop_ok [OF ok2 n2]
  have reg2: "register_shop ?n ?st2 = Inr (?st2\<lparr>shops := ?m2\<rparr>)"
    and ok3: "store_ok (?st2\<lparr>shops := ?m2\<rparr>)"
    using id0 by simp_all
  have eq: "?st2\<lparr>shops := ?m2\<rparr> = \<lparr>heap = h', shops = ?m2\<rparr>" by simp
  have "add_road shop_id road_to st = Inr \<lparr>heap = h', shops = ?m2\<rparr>"
    using s r h'(1) reg1 reg2 by (simp add: add_road_def bind_r_def new_shop_def)
  moreover have "valid_network \<lparr>heap = h', shops = ?m2\<rparr>"
    using ok3 h'(5) unfolding eq by (simp add: valid_network_def)
  moreover have "heap_links ?h1 = heap_links (heap st)"
    by (simp add: heap_links_def)
  ultimately show ?thesis using h'(1,2,4) by auto
qed

lemma add_road_valid:
  assumes v: "valid_network st"
  shows "\<exists>st'. add_road shop_id road_to st = Inr st' \<and> valid_network st' \<and>
           heap_links (heap st') = heap_links (heap st) + 2 \<and>
           shop_at shop_id st' \<noteq> None \<and> shop_at road_to st' \<noteq> None \<and>
           (\<forall>k q. shop_at k st = Some q \<longrightarrow> shop_at k st' = Some q)"
proof -
  from v have srt: "sorted_wrt (<) (map fst (shops st))"
    by (simp add: valid_network_def store_ok_def)
  let ?n = "length (heap st)"
  show ?thesis
  proof (cases "shop_at shop_id st")
    case None
    note s = this
    show ?thesis
    proof (cases "shop_at road_to st")
      case None
      let ?m1 = "map_insert road_to (Suc ?n) (shops st)"
      let ?m = "map_insert shop_id ?n ?m1"
      from srt have srt1: "sorted_wrt (<) (map fst ?m1)" by (rule sorted_map_insert)
      from add_road_new_both [OF v s None] obtain h' where
        h': "add_road shop_id road_to st = Inr \<lparr>heap = h', shops = ?m\<rparr>"
            "valid_network \<lparr>heap = h', shops = ?m\<rparr>"
            "heap_links h' = heap_links (heap st) + 2" by blast
      have a: "map_at road_to ?m1 = Some (Suc ?n)"
        using None by (simp add: shop_at_def map_at_insert_new)
      have "map_at road_to ?m \<noteq> None"
        using map_at_insert_old [OF srt1 a] by simp
      moreover have "map_at shop_id ?m \<noteq> None"
        by (cases "map_at shop_id ?m1")
           (simp_all add: map_at_insert_new map_at_insert_old [OF srt1])
      moreover have "map_at k ?m = Some q" if "map_at k (shops st) = Some q" for k q
        using that map_at_insert_old [OF srt1] map_at_insert_old [OF srt] by simp
      ultimately show ?thesis using h' by (intro exI [of _ "\<lparr>heap = h', shops = ?m\<rparr>"]) (simp add: shop_at_def)
    next
      case (Some q)
      let ?m = "map_insert shop_id ?n (shops st)"
      from add_road_new_shop [OF v s Some] obtain h' where
        h': "add_road shop_id road_to st = Inr \<lparr>heap = h', shops = ?m\<rparr>"
            "valid_network \<lparr>heap = h', shops = ?m\<rparr>"
            "heap_links h' = heap_links (heap st) + 2" by blast
      have old: "map_at k ?m = Some q" if "map_at k (shops st) = Some q" for k q
        using that map_at_insert_old [OF srt] by simp
      have "map_at shop_id ?m \<noteq> None"
        using s by (simp add: shop_at_def map_at_insert_new)
      moreover have "map_at road_to ?m \<noteq> None"
        using old [of road_to q] Some by (simp add: shop_at_def)
      ultimately show ?thesis using h' old
        by (intro exI [of _ "\<lparr>heap = h', shops = ?m\<rparr>"]) (simp add: shop_at_def)
    qed
  next
    case (Some p)
    note s = this
    show ?thesis
    proof (cases "shop_at road_to st")
      case None
      let ?m = "map_insert road_to ?n (shops st)"
      from add_road_new_dest [OF v s None] obtain h' where
        h': "add_road shop_id road_to st = Inr \<lparr>heap = h', shops = ?m\<rparr>"
            "valid_network \<lparr>heap = h', shops = ?m\<rparr>"
            "heap_links h' = heap_links (heap st) + 2" by blast
      have old: "map_at k ?m = Some q" if "map_at k (shops st) = Some q" for k q
        using that map_at_insert_old [OF srt] by simp
      have "map_at road_to ?m \<noteq> None"
        using None by (simp add: shop_at_def map_at_insert_new)
      moreover have "map_at shop_id ?m \<noteq> None"
        using old [of shop_id p] s by (simp add: shop_at_def)
      ultimately show ?thesis using h' old
        by (intro exI [of _ "\<lparr>heap = h', shops = ?m\<rparr>"]) (simp add: shop_at_def)
    next
      case (Some q)
      from add_road_both [OF v s Some] obtain h' where
        h': "add_road shop_id road_to st = Inr (st\<lparr>heap := h'\<rparr>)"
            "valid_network (st\<lparr>heap := h'\<rparr>)"
            "heap_links h' = heap_links (heap st) + 2" by blast
      then show ?thesis using s Some
        by (intro exI [of _ "st\<lparr>heap := h'\<rparr>"]) (simp add: shop_at_def)
    qed
  qed
qed

lemma read_roads_valid:
  "valid_network st \<Longrightarrow>
   read_roads n ls st = Inl Line_Parse_Error \<or>
   (\<exists>st'. read_roads n ls st = Inr st' \<and> valid_network st' \<and>
      heap_links (heap st') \<le> heap_links (heap st) + 2 * n \<and>
      (\<forall>k q. shop_at k st = Some q \<longrightarrow> shop_at k st' = Some q))"
proof (induction n ls st rule: read_roads.induct)
  case (1 ls st)
  then show ?case by simp
next
  case (2 n st)
  then show ?case by simp
next
  case (3 n ls st)
  then show ?case by simp
next
  case (4 n shop_id road_to ls st)
  show ?case
  proof (cases "shop_id < 1 \<or> shop_id > 1000")
    case True
    with 4 show ?thesis by fastforce
  next
    case False
    from add_road_valid [OF "4.prems", of shop_id road_to] obtain st1 where
      st1: "add_road shop_id road_to st = Inr st1" "valid_network st1"
           "heap_links (heap st1) = heap_links (heap st) + 2"
           "\<forall>k q. shop_at k st = Some q \<longrightarrow> shop_at k st1 = Some q" by blast
    from "4.IH"(2) [OF False st1(2)] False st1 show ?thesis
      by (auto simp: bind_r_def)
  qed
qed

subsection \<open>A run of main in which every line is skipped\<close>

lemma read_roads_all_skipped:
  "\<forall>l\<in>set ls. \<exists>s r. l = Some (s, r) \<and> (s < 1 \<or> 1000 < s) \<Longrightarrow> read_roads n ls st = Inr st"
  by (induction n ls st rule: read_roads.induct) auto

lemma reduce_empty: "reduce empty_network = Inl Front_Of_Empty"
  by (simp add: reduce_def empty_network_def sort_desc_def)

subsection \<open>Self-loops\<close>

text \<open>
  A self-loop on an identifier that is registered appends the node to its own neighbour
  vector twice and allocates nothing.
\<close>

lemma self_loop_registered:
  assumes "valid_network st" "shop_at u st = Some p"
  shows "add_road u u st =
           Inr (st\<lparr>heap := (heap st)[p := (heap st ! p)
                  \<lparr>connected_shops := connected_shops (heap st ! p) @ [p, p]\<rparr>]\<rparr>)"
proof -
  from assms have p: "p < length (heap st)"
    using entry_valid [of st u p] by (simp add: valid_network_def)
  then show ?thesis
    using assms(2) by (simp add: add_road_def link_def push_back_def bind_r_def)
qed

subsection \<open>Two shops and one road\<close>

lemma read_two_shops:
  assumes "a \<noteq> b" "\<not> (a < 1 \<or> 1000 < a)"
  shows "read_roads 1 [Some (a, b)] empty_network = Inr (two_shops a b)"
  using assms
  by (simp add: add_road_def shop_at_def new_shop_def link_def push_back_def bind_r_def
      register_shop_def empty_network_def two_shops_def)

lemma node_set_two_shops: "node_set (two_shops a b) = {0, 1}"
  by (auto simp: node_set_def two_shops_def)

lemma degree_two_shops:
  "degree (two_shops a b) 0 = Suc 0" "degree (two_shops a b) (Suc 0) = Suc 0"
  by (simp_all add: degree_def two_shops_def)

lemma core_two_shops: "core_set (two_shops a b) = {0, 1}"
  by (auto simp: core_set_def hub_threshold_def node_set_two_shops degree_two_shops)

lemma impact_two_shops:
  "external_impact (two_shops a b) 0 = 0" "external_impact (two_shops a b) (Suc 0) = 0"
  by (simp_all add: external_impact_def core_two_shops) (simp_all add: two_shops_def)

lemma winners_two_shops: "winners (two_shops a b) = {0, 1}"
  by (auto simp: winners_def impact_threshold_def core_two_shops impact_two_shops)

lemma reduce_two_shops: "reduce (two_shops a b) = Inr (2, two_shops a b)"
  by (simp add: reduce_def two_shops_def sort_desc_def size_at_def impact_of_def)

subsection \<open>The descending sort\<close>

lemma set_insert_desc: "set (insert_desc f x ys) = insert x (set ys)"
  by (induction ys) auto

lemma set_sort_desc: "set (sort_desc f xs) = set xs"
  by (induction xs) (auto simp: sort_desc_def set_insert_desc)

lemma length_insert_desc: "length (insert_desc f x ys) = Suc (length ys)"
  by (induction ys) auto

lemma length_sort_desc: "length (sort_desc f xs) = length xs"
  by (induction xs) (auto simp: sort_desc_def length_insert_desc)

lemma sort_desc_Nil_iff: "sort_desc f xs = [] \<longleftrightarrow> xs = []"
  using length_sort_desc [of f xs] by (metis length_0_conv)

lemma distinct_insert_desc: "distinct (insert_desc f x ys) \<longleftrightarrow> x \<notin> set ys \<and> distinct ys"
  by (induction ys) (auto simp: set_insert_desc)

lemma distinct_sort_desc: "distinct (sort_desc f xs) \<longleftrightarrow> distinct xs"
  by (induction xs) (auto simp: sort_desc_def distinct_insert_desc set_sort_desc [unfolded sort_desc_def])

lemma filter_length_insert_desc:
  "length (filter P (insert_desc f x ys)) = length (filter P (x # ys))"
  by (induction ys) auto

lemma filter_length_sort_desc: "length (filter P (sort_desc f xs)) = length (filter P xs)"
  by (induction xs) (auto simp: sort_desc_def filter_length_insert_desc)

lemma sorted_insert_desc:
  "sorted_wrt (\<lambda>a b. f b \<le> f a) ys \<Longrightarrow> sorted_wrt (\<lambda>a b. f b \<le> f a) (insert_desc f x ys)"
  by (induction ys) (auto simp: set_insert_desc)

lemma sorted_sort_desc: "sorted_wrt (\<lambda>a b. f b \<le> f a) (sort_desc f xs)"
  by (induction xs) (auto simp: sort_desc_def sorted_insert_desc)

lemma sort_desc_front:
  assumes "sort_desc f xs = front # rest"
  shows "front \<in> set xs \<and> (\<forall>x\<in>set xs. f x \<le> f front)"
proof -
  from assms set_sort_desc [of f xs] have s: "set xs = insert front (set rest)" by simp
  from assms sorted_sort_desc [of f xs] have "\<forall>x\<in>set rest. f x \<le> f front" by simp
  with s show ?thesis by auto
qed

subsection \<open>reduce on a well-formed network\<close>

lemma stored_pointers_valid:
  "store_ok st \<Longrightarrow> list_all (\<lambda>p. p < length (heap st)) (map snd (shops st))"
  unfolding store_ok_def entries_ok_def list_all_iff by auto

lemma neighbours_valid:
  "valid_pointers h \<Longrightarrow> p < length h \<Longrightarrow> list_all (\<lambda>c. c < length h) (connected_shops (h ! p))"
  using nth_mem [of p h] unfolding valid_pointers_def list_all_iff by blast

lemma reduce_steps:
  assumes v: "valid_network st" and ne: "shops st \<noteq> []"
  shows "\<exists>front rest ifront irest.
           sort_desc (size_at (heap st)) (map snd (shops st)) = front # rest \<and>
           sort_desc impact
             (map (impact_of (heap st)
                    (filter (\<lambda>el. \<not> size_at (heap st) el < size_at (heap st) front) (front # rest)))
                (filter (\<lambda>el. \<not> size_at (heap st) el < size_at (heap st) front) (front # rest))) =
             ifront # irest \<and>
           reduce st =
             Inr (if length (filter (\<lambda>el. \<not> impact el < impact ifront) (ifront # irest)) < 2 then 0
                  else length (filter (\<lambda>el. \<not> impact el < impact ifront) (ifront # irest)), st)"
proof -
  let ?h = "heap st"
  let ?ls = "map snd (shops st)"
  from v have ok: "store_ok st" and vp: "valid_pointers ?h" by (simp_all add: valid_network_def)
  have g1: "list_all (\<lambda>p. p < length ?h) ?ls" using ok by (rule stored_pointers_valid)
  from ne have "sort_desc (size_at ?h) ?ls \<noteq> []" by (simp add: sort_desc_Nil_iff)
  then obtain front rest where fr: "sort_desc (size_at ?h) ?ls = front # rest"
    by (cases "sort_desc (size_at ?h) ?ls") auto
  let ?core = "filter (\<lambda>el. \<not> size_at ?h el < size_at ?h front) (front # rest)"
  have "set ?core \<subseteq> set ?ls" using set_sort_desc [of "size_at ?h" ?ls] fr by auto
  with g1 have "\<forall>el\<in>set ?core. el < length ?h" unfolding list_all_iff by blast
  with vp have g2: "list_all (\<lambda>el. list_all (\<lambda>c. c < length ?h) (connected_shops (?h ! el))) ?core"
    unfolding list_all_iff [of _ ?core] by (blast intro: neighbours_valid)
  have "?core \<noteq> []" by simp
  then have "sort_desc impact (map (impact_of ?h ?core) ?core) \<noteq> []"
    by (simp only: sort_desc_Nil_iff map_is_Nil_conv not_False_eq_True)
  then obtain ifront irest where ifr: "sort_desc impact (map (impact_of ?h ?core) ?core) = ifront # irest"
    by (cases "sort_desc impact (map (impact_of ?h ?core) ?core)") auto
  have "reduce st =
          Inr (if length (filter (\<lambda>el. \<not> impact el < impact ifront) (ifront # irest)) < 2 then 0
               else length (filter (\<lambda>el. \<not> impact el < impact ifront) (ifront # irest)), st)"
    unfolding reduce_def Let_def using g1 g2 fr ifr
    by (simp only: list.case if_False if_True simp_thms split: if_splits) blast
  with fr ifr show ?thesis by blast
qed

lemma reduce_returns:
  assumes "valid_network st" "shops st \<noteq> []"
  shows "\<exists>r. reduce st = Inr (r, st) \<and> (r = 0 \<or> 2 \<le> r)"
proof -
  from reduce_steps [OF assms] obtain n where
    "reduce st = Inr (if n < 2 then 0 else n, st)" by blast
  then show ?thesis by (cases "n < 2") simp_all
qed

lemma reduce_no_empty_front: "shops st \<noteq> [] \<Longrightarrow> reduce st \<noteq> Inl Front_Of_Empty"
  unfolding reduce_def Let_def
  by (simp add: sort_desc_Nil_iff split: list.splits)

lemma reduce_keeps_state: "reduce st = Inr (r, st') \<Longrightarrow> st' = st"
  unfolding reduce_def Let_def
  by (simp split: if_splits list.splits del: filter.simps list.map)

subsection \<open>The scenario of two tied hubs\<close>

lemma read_scenario_b:
  "read_roads 5 [Some (1, 2), Some (1, 3), Some (1, 4), Some (2, 5), Some (2, 6)] empty_network =
     Inr scenario_b"
  by code_simp

lemma valid_scenario_b: "valid_network scenario_b"
  by (simp add: valid_network_def valid_pointers_def store_ok_def entries_ok_def scenario_b_def)

lemma shops_scenario_b: "shops scenario_b \<noteq> []"
  by (simp add: scenario_b_def)

lemma reduce_scenario_b: "reduce scenario_b = Inr (2, scenario_b)"
  by (simp add: reduce_def scenario_b_def sort_desc_def size_at_def impact_of_def)

lemma valid_two_shops: "a \<noteq> b \<Longrightarrow> valid_network (two_shops a b)"
  by (auto simp: valid_network_def valid_pointers_def store_ok_def entries_ok_def two_shops_def)

subsection \<open>reduce computes the reference algorithm\<close>

lemma stored_pointers_distinct:
  assumes "store_ok st"
  shows "distinct (map snd (shops st))"
proof -
  let ?g = "\<lambda>p. identifier (heap st ! p)"
  from assms have "\<forall>e\<in>set (shops st). ?g (snd e) = fst e"
    unfolding store_ok_def entries_ok_def list_all_iff by auto
  then have "map ?g (map snd (shops st)) = map fst (shops st)"
    by (simp only: map_map o_def map_eq_conv)
  moreover from assms have "distinct (map fst (shops st))"
    unfolding store_ok_def by (simp add: strict_sorted_iff)
  ultimately have "distinct (map ?g (map snd (shops st)))" by (simp only:)
  then show ?thesis by (simp only: distinct_map)
qed

lemma sum_list_bounded:
  "\<forall>x\<in>set xs. f x \<le> (c::nat) \<Longrightarrow> sum_list (map f xs) \<le> length xs * c"
  by (induction xs) auto

lemma degree_le_heap_links: "p < length (heap st) \<Longrightarrow> degree st p \<le> heap_links (heap st)"
  unfolding degree_def heap_links_def
  using member_le_sum_list [of "length (connected_shops (heap st ! p))"
      "map (\<lambda>s. length (connected_shops s)) (heap st)"]
  by simp

lemma external_impact_bound:
  assumes "finalized st" "v < length (heap st)"
  shows "external_impact st v \<le> 2000 * 2000"
proof -
  let ?cs = "connected_shops (heap st ! v)"
  let ?xs = "filter (\<lambda>w. w \<notin> core_set st) ?cs"
  from assms have vp: "valid_pointers (heap st)" and hl: "heap_links (heap st) \<le> 2000"
    by (simp_all add: finalized_def valid_network_def)
  from neighbours_valid [OF vp assms(2)] have "\<forall>w\<in>set ?xs. w < length (heap st)"
    by (simp add: list_all_iff)
  then have "\<forall>w\<in>set ?xs. degree st w \<le> 2000"
    using degree_le_heap_links hl by (meson le_trans)
  then have "sum_list (map (degree st) ?xs) \<le> length ?xs * 2000"
    by (rule sum_list_bounded)
  moreover have "length ?xs \<le> length ?cs" by simp
  moreover have "length ?cs \<le> 2000"
    using degree_le_heap_links [OF assms(2)] hl by (simp add: degree_def)
  ultimately have "sum_list (map (degree st) ?xs) \<le> 2000 * 2000"
    by (meson le_trans mult_le_mono1)
  then show ?thesis by (simp add: external_impact_def)
qed

lemma impact_fold:
  "fold (\<lambda>c imp. if P c then imp + of_nat (g c) else imp) cs (acc :: 64 word) =
     acc + of_nat (sum_list (map g (filter P cs)))"
  by (induction cs arbitrary: acc) (simp_all add: add.assoc)

lemma impact_of_external:
  assumes "set core = core_set st"
  shows "impact (impact_of (heap st) core v) = of_nat (external_impact st v)"
proof -
  have "size_at (heap st) c = degree st c" for c by (simp add: size_at_def degree_def)
  then show ?thesis
    using impact_fold [of "\<lambda>c. c \<notin> core_set st" "degree st" "connected_shops (heap st ! v)" 0]
    by (simp add: impact_of_def external_impact_def assms cong: if_cong)
qed

lemma unat_impact_small:
  "n \<le> 2000 * 2000 \<Longrightarrow> unat (of_nat n :: 64 word) = n"
  by (simp add: unat_of_nat)

text \<open>
  Every state the loop of \<open>main\<close> reaches from the empty network is finalized: the
  header check bounds the number of lines by 1000.
\<close>

lemma valid_empty_network: "valid_network empty_network"
  by (simp add: valid_network_def valid_pointers_def store_ok_def entries_ok_def
      empty_network_def)

lemma read_roads_finalized:
  assumes "n \<le> 1000" "read_roads n ls empty_network = Inr st"
  shows "finalized st"
proof -
  have "heap_links (heap empty_network) = 0" by (simp add: heap_links_def empty_network_def)
  with read_roads_valid [OF valid_empty_network, of n ls] assms show ?thesis
    by (auto simp: finalized_def)
qed

lemma finalized_scenario_b: "finalized scenario_b"
  using read_roads_finalized [OF _ read_scenario_b] by simp

subsection \<open>Counting the connections\<close>

lemma count_fold:
  "fold (\<lambda>remote_shop counter. counter + 1) cs (c :: 64 word) = c + of_nat (length cs)"
  by (induction cs arbitrary: c) (simp_all add: add.assoc add.commute)

lemma sizes_fold:
  "fold (\<lambda>(k, p) counter. counter + of_nat (size_at h p)) m (acc :: 64 word) =
   acc + of_nat (sum_list (map (size_at h) (map snd m)))"
  by (induction m arbitrary: acc) (auto simp: add.assoc)

lemma connections_fold:
  "fold (\<lambda>(k, p) counter. fold (\<lambda>remote_shop counter. counter + 1) (connected_shops (h ! p)) counter)
     (m :: (64 word \<times> addr) list) (acc :: 64 word) =
   acc + of_nat (sum_list (map (size_at h) (map snd m)))"
proof -
  have "(\<lambda>(k :: 64 word, p) counter :: 64 word.
           fold (\<lambda>remote_shop counter. counter + 1) (connected_shops (h ! p)) counter) =
        (\<lambda>(k, p) counter. counter + of_nat (size_at h p))"
    by (intro ext) (simp add: count_fold size_at_def case_prod_unfold)
  then show ?thesis using sizes_fold [of h m acc] by (simp only:)
qed

lemma number_of_connections_links:
  "store_ok st \<Longrightarrow> number_of_connections st = Inr (of_nat (store_links st))"
  using connections_fold [of "heap st" "shops st" 0]
  by (simp add: number_of_connections_def store_links_def store_ok_def entries_ok_def
      list_all_iff case_prod_unfold)

lemma link_sizes:
  assumes "p < length h" "q < length h" "link p q h = Inr h'"
  shows "size_at h' x = size_at h x + (if x = p then 1 else 0) + (if x = q then 1 else 0)"
proof -
  from assms have "h' = (h[p := (h ! p)\<lparr>connected_shops := connected_shops (h ! p) @ [q]\<rparr>])
        [q := ((h[p := (h ! p)\<lparr>connected_shops := connected_shops (h ! p) @ [q]\<rparr>]) ! q)
           \<lparr>connected_shops := connected_shops
               ((h[p := (h ! p)\<lparr>connected_shops := connected_shops (h ! p) @ [q]\<rparr>]) ! q) @ [p]\<rparr>]"
    by (simp add: link_def bind_r_def push_back_def)
  with assms(1,2) show ?thesis
    by (cases "x = p"; cases "x = q") (simp_all add: size_at_def)
qed

lemma sum_bump:
  "distinct xs \<Longrightarrow>
   sum_list (map (\<lambda>x. g x + (if x = p then 1 else 0)) xs) =
   sum_list (map g xs) + (if p \<in> set xs then 1 else (0::nat))"
  by (induction xs) auto

lemma sum_insert_fresh:
  "map_at k m = None \<Longrightarrow>
   sum_list (map f (map snd (map_insert k v m))) = f v + (sum_list (map f (map snd m)) :: nat)"
  by (induction m) (auto split: if_splits)

lemma sum_same:
  "\<forall>x\<in>set xs. f x = g x \<Longrightarrow> sum_list (map f xs) = (sum_list (map g xs) :: nat)"
  by (induction xs) auto

lemma links_after_link:
  assumes "distinct xs" "p < length h" "q < length h" "link p q h = Inr h'"
  shows "sum_list (map (size_at h') xs) =
         sum_list (map (size_at h) xs) + (if p \<in> set xs then 1 else 0) + (if q \<in> set xs then 1 else 0)"
proof -
  have "sum_list (map (size_at h') xs) =
        sum_list (map (\<lambda>x. (size_at h x + (if x = p then 1 else 0)) + (if x = q then 1 else 0)) xs)"
    using link_sizes [OF assms(2,3,4)] by (intro sum_same) simp
  also have "\<dots> = sum_list (map (\<lambda>x. size_at h x + (if x = p then 1 else 0)) xs) +
                  (if q \<in> set xs then 1 else 0)"
    using assms(1) by (rule sum_bump)
  also have "sum_list (map (\<lambda>x. size_at h x + (if x = p then 1 else 0)) xs) =
             sum_list (map (size_at h) xs) + (if p \<in> set xs then 1 else 0)"
    using assms(1) by (rule sum_bump)
  finally show ?thesis .
qed

lemma stored_pointer_mem:
  "shop_at k st = Some p \<Longrightarrow> p \<in> set (map snd (shops st))"
  unfolding shop_at_def by (drule map_at_Some_mem) force

lemma size_at_append: "x < length h \<Longrightarrow> size_at (h @ h2) x = size_at h x"
  by (simp add: size_at_def nth_append)

lemma size_at_fresh:
  "size_at (h @ [\<lparr>identifier = i, connected_shops = []\<rparr>]) (length h) = 0"
  by (simp add: size_at_def)

lemma links_both:
  assumes v: "valid_network st" and s: "shop_at shop_id st = Some p" and r: "shop_at road_to st = Some q"
  shows "\<exists>st'. add_road shop_id road_to st = Inr st' \<and> store_links st' = store_links st + 2"
proof -
  from v have ok: "store_ok st" by (simp add: valid_network_def)
  from add_road_both [OF v s r] obtain h' where
    h': "add_road shop_id road_to st = Inr (st\<lparr>heap := h'\<rparr>)" "link q p (heap st) = Inr h'"
    by blast
  from entry_valid [OF ok s] entry_valid [OF ok r]
  have p: "p < length (heap st)" and q: "q < length (heap st)" by simp_all
  from links_after_link [OF stored_pointers_distinct [OF ok] q p h'(2)]
    stored_pointer_mem [OF s] stored_pointer_mem [OF r]
  have "store_links (st\<lparr>heap := h'\<rparr>) = store_links st + 2"
    by (simp add: store_links_def)
  with h'(1) show ?thesis by blast
qed

lemma stored_below:
  "store_ok st \<Longrightarrow> \<forall>x\<in>set (map snd (shops st)). x < length (heap st)"
  using stored_pointers_valid [of st] by (simp add: list_all_iff)

lemma links_one_fresh:
  assumes ok: "store_ok st" and at: "map_at k (shops st) = None"
    and old: "shop_at k' st = Some p"
    and lk: "link a b (heap st @ [\<lparr>identifier = k, connected_shops = []\<rparr>]) = Inr h'"
    and ab: "(a = length (heap st) \<and> b = p) \<or> (a = p \<and> b = length (heap st))"
  shows "store_links \<lparr>heap = h', shops = map_insert k (length (heap st)) (shops st)\<rparr> =
         store_links st + 2"
proof -
  let ?n = "length (heap st)"
  let ?h0 = "heap st @ [\<lparr>identifier = k, connected_shops = []\<rparr>]"
  let ?xs = "map snd (shops st)"
  from entry_valid [OF ok old] have p: "p < ?n" by simp
  from ab p have a: "a < length ?h0" and b: "b < length ?h0" by auto
  have below: "\<forall>x\<in>set ?xs. x < ?n" using ok by (rule stored_below)
  then have n_notin: "?n \<notin> set ?xs" by blast
  have p_in: "p \<in> set ?xs" using old by (rule stored_pointer_mem)
  have "sum_list (map (size_at h') ?xs) =
        sum_list (map (size_at ?h0) ?xs) + (if a \<in> set ?xs then 1 else 0) + (if b \<in> set ?xs then 1 else 0)"
    using stored_pointers_distinct [OF ok] a b lk by (rule links_after_link)
  moreover have "sum_list (map (size_at ?h0) ?xs) = sum_list (map (size_at (heap st)) ?xs)"
    using below by (intro sum_same) (simp add: size_at_append)
  moreover have "(if a \<in> set ?xs then 1 else 0) + (if b \<in> set ?xs then 1 else (0::nat)) = 1"
    using ab n_notin p_in by auto
  ultimately have old_sum: "sum_list (map (size_at h') ?xs) = store_links st + 1"
    by (simp add: store_links_def)
  have "size_at h' ?n = size_at ?h0 ?n + (if ?n = a then 1 else 0) + (if ?n = b then 1 else 0)"
    using a b lk by (rule link_sizes)
  with ab p have new: "size_at h' ?n = 1" by (auto simp: size_at_fresh)
  show ?thesis
    using sum_insert_fresh [OF at, of "size_at h'" ?n] old_sum new
    by (simp add: store_links_def)
qed

lemma links_new_dest:
  assumes v: "valid_network st" and s: "shop_at shop_id st = Some p" and r: "shop_at road_to st = None"
  shows "\<exists>st'. add_road shop_id road_to st = Inr st' \<and> store_links st' = store_links st + 2"
proof -
  from v have ok: "store_ok st" by (simp add: valid_network_def)
  from add_road_new_dest [OF v s r] obtain h' where
    h': "add_road shop_id road_to st =
           Inr \<lparr>heap = h', shops = map_insert road_to (length (heap st)) (shops st)\<rparr>"
        "link (length (heap st)) p (heap st @ [\<lparr>identifier = road_to, connected_shops = []\<rparr>]) = Inr h'"
    by blast
  from r have at: "map_at road_to (shops st) = None" by (simp add: shop_at_def)
  from links_one_fresh [OF ok at s h'(2)] h'(1) show ?thesis by simp
qed

lemma links_new_shop:
  assumes v: "valid_network st" and s: "shop_at shop_id st = None" and r: "shop_at road_to st = Some q"
  shows "\<exists>st'. add_road shop_id road_to st = Inr st' \<and> store_links st' = store_links st + 2"
proof -
  from v have ok: "store_ok st" by (simp add: valid_network_def)
  from add_road_new_shop [OF v s r] obtain h' where
    h': "add_road shop_id road_to st =
           Inr \<lparr>heap = h', shops = map_insert shop_id (length (heap st)) (shops st)\<rparr>"
        "link q (length (heap st)) (heap st @ [\<lparr>identifier = shop_id, connected_shops = []\<rparr>]) = Inr h'"
    by blast
  from s have at: "map_at shop_id (shops st) = None" by (simp add: shop_at_def)
  from links_one_fresh [OF ok at r h'(2)] h'(1) show ?thesis by simp
qed

lemma links_new_both:
  assumes v: "valid_network st" and s: "shop_at shop_id st = None" and r: "shop_at road_to st = None"
  shows "\<exists>st'. add_road shop_id road_to st = Inr st' \<and>
           store_links st' = store_links st + (if shop_id = road_to then 1 else 2)"
proof -
  let ?n = "length (heap st)"
  let ?h1 = "(heap st @ [\<lparr>identifier = shop_id, connected_shops = []\<rparr>]) @
             [\<lparr>identifier = road_to, connected_shops = []\<rparr>]"
  let ?xs = "map snd (shops st)"
  let ?m1 = "map_insert road_to (Suc ?n) (shops st)"
  from v have ok: "store_ok st" by (simp add: valid_network_def)
  then have srt: "sorted_wrt (<) (map fst (shops st))" by (simp add: store_ok_def)
  from add_road_new_both [OF v s r] obtain h' where
    h': "add_road shop_id road_to st = Inr \<lparr>heap = h', shops = map_insert shop_id ?n ?m1\<rparr>"
        "link (Suc ?n) ?n ?h1 = Inr h'"
    by blast
  have a: "Suc ?n < length ?h1" and b: "?n < length ?h1" by simp_all
  have below: "\<forall>x\<in>set ?xs. x < ?n" using ok by (rule stored_below)
  then have notin: "?n \<notin> set ?xs" "Suc ?n \<notin> set ?xs" by auto
  have "sum_list (map (size_at h') ?xs) =
        sum_list (map (size_at ?h1) ?xs) + (if Suc ?n \<in> set ?xs then 1 else 0) +
        (if ?n \<in> set ?xs then 1 else 0)"
    using stored_pointers_distinct [OF ok] a b h'(2) by (rule links_after_link)
  moreover have "sum_list (map (size_at ?h1) ?xs) = sum_list (map (size_at (heap st)) ?xs)"
    using below by (intro sum_same) (simp add: size_at_append)
  ultimately have old_sum: "sum_list (map (size_at h') ?xs) = store_links st"
    using notin by (simp add: store_links_def)
  have sz: "size_at h' x = size_at ?h1 x + (if x = Suc ?n then 1 else 0) + (if x = ?n then 1 else 0)" for x
    using a b h'(2) by (rule link_sizes)
  have new: "size_at h' ?n = 1" "size_at h' (Suc ?n) = 1"
    using sz [of ?n] sz [of "Suc ?n"] by (simp_all add: size_at_def nth_append)
  from r have at_r: "map_at road_to (shops st) = None" by (simp add: shop_at_def)
  have m1: "sum_list (map (size_at h') (map snd ?m1)) = store_links st + 1"
    using sum_insert_fresh [OF at_r, of "size_at h'" "Suc ?n"] old_sum new by simp
  show ?thesis
  proof (cases "shop_id = road_to")
    case True
    have "map_at shop_id ?m1 = Some (Suc ?n)"
      using at_r True by (simp add: map_at_insert_new)
    then have "map_insert shop_id ?n ?m1 = ?m1"
      using sorted_map_insert [OF srt] by (rule map_insert_present [rotated])
    with h'(1) m1 True show ?thesis by (simp add: store_links_def)
  next
    case False
    from s have "map_at shop_id ?m1 = None"
      using False by (simp add: shop_at_def map_at_insert_other)
    from sum_insert_fresh [OF this, of "size_at h'" ?n] m1 new h'(1) False show ?thesis
      by (simp add: store_links_def)
  qed
qed

lemma add_road_links:
  assumes "valid_network st"
  shows "\<exists>st'. add_road shop_id road_to st = Inr st' \<and>
           store_links st' =
             store_links st + (if shop_id = road_to \<and> shop_at shop_id st = None then 1 else 2)"
proof (cases "shop_at shop_id st")
  case None
  note s = this
  show ?thesis
  proof (cases "shop_at road_to st")
    case None
    with links_new_both [OF assms s None] s show ?thesis by auto
  next
    case (Some q)
    with links_new_shop [OF assms s Some] s show ?thesis by auto
  qed
next
  case (Some p)
  note s = this
  show ?thesis
  proof (cases "shop_at road_to st")
    case None
    with links_new_dest [OF assms s None] s show ?thesis by auto
  next
    case (Some q)
    with links_both [OF assms s Some] s show ?thesis by auto
  qed
qed

lemma accepted_le: "accepted n ls \<le> n"
  by (induction n ls rule: accepted.induct) auto

lemma read_roads_links:
  "valid_network st \<Longrightarrow> \<forall>l\<in>set ls. \<forall>s r. l = Some (s, r) \<longrightarrow> s \<noteq> r \<Longrightarrow>
   read_roads n ls st = Inr st' \<Longrightarrow> store_links st' = store_links st + 2 * accepted n ls"
proof (induction n ls st rule: read_roads.induct)
  case (1 ls st)
  then show ?case by simp
next
  case (2 n st)
  then show ?case by simp
next
  case (3 n ls st)
  then show ?case by simp
next
  case (4 n shop_id road_to ls st)
  show ?case
  proof (cases "shop_id < 1 \<or> shop_id > 1000")
    case True
    with 4 show ?thesis by simp
  next
    case False
    from "4.prems"(2) have ne: "shop_id \<noteq> road_to" by simp
    from add_road_valid [OF "4.prems"(1), of shop_id road_to] obtain st1 where
      st1: "add_road shop_id road_to st = Inr st1" "valid_network st1" by blast
    with add_road_links [OF "4.prems"(1), of shop_id road_to] ne
    have l1: "store_links st1 = store_links st + 2" by auto
    from "4.prems"(3) False st1(1) have "read_roads n ls st1 = Inr st'"
      by (simp add: bind_r_def)
    with "4.IH"(2) [OF False st1(2)] "4.prems"(2) have "store_links st' = store_links st1 + 2 * accepted n ls"
      by simp
    with l1 False show ?thesis by simp
  qed
qed

text \<open>
  Without self-loops among the lines, \<open>number_of_connections\<close> is twice the number of
  insertions, duplicate edges included.
\<close>

lemma connections_without_self_loops:
  assumes "n \<le> 1000" "\<forall>l\<in>set ls. \<forall>s r. l = Some (s, r) \<longrightarrow> s \<noteq> r"
    "read_roads n ls empty_network = Inr st"
  shows "\<exists>c. number_of_connections st = Inr c \<and> unat c = 2 * accepted n ls"
proof -
  from read_roads_valid [OF valid_empty_network, of n ls] assms(3)
  have "valid_network st" by auto
  then have "number_of_connections st = Inr (of_nat (store_links st))"
    by (simp add: valid_network_def number_of_connections_links)
  moreover have "store_links st = 2 * accepted n ls"
    using read_roads_links [OF valid_empty_network assms(2,3)]
    by (simp add: store_links_def empty_network_def)
  moreover have "store_links st \<le> 2000 * 2000"
    using accepted_le [of n ls] assms(1) unfolding \<open>store_links st = 2 * accepted n ls\<close> by simp
  then have "unat (of_nat (store_links st) :: 64 word) = store_links st"
    by (rule unat_impact_small)
  ultimately show ?thesis by (intro exI [of _ "of_nat (store_links st)"]) (simp only: simp_thms)
qed

text \<open>A self-loop on an identifier that is not registered adds one entry to the map's nodes.\<close>

lemma fresh_self_loop_links:
  assumes "valid_network st" "shop_at u st = None"
  shows "\<exists>st'. add_road u u st = Inr st' \<and> store_links st' = store_links st + 1"
  using add_road_links [OF assms(1), of u u] assms(2) by simp

section \<open>The claims of the specification\<close>

text \<open>
  Claim C1, amended to stores with at least one node. On a finalized store with at least
  one node, \<open>reduce\<close> returns the value of the reference algorithm: the number of core
  nodes of the largest impact when there are at least two, and 0 otherwise. The impacts,
  which the code adds up in 64 bits, stay below the point of wrap-around on such a store.
\<close>

theorem reduce_is_reference:
  assumes fin: "finalized st" and ne: "shops st \<noteq> []"
  shows "reduce st = Inr (reference_result st, st)"
proof -
  let ?h = "heap st"
  let ?ls = "map snd (shops st)"
  from fin have v: "valid_network st" by (simp add: finalized_def)
  then have ok: "store_ok st" by (simp add: valid_network_def)
  from reduce_steps [OF v ne] obtain front rest ifront irest where
    fr: "sort_desc (size_at ?h) ?ls = front # rest" and
    ifr: "sort_desc impact
            (map (impact_of ?h (filter (\<lambda>el. \<not> size_at ?h el < size_at ?h front) (front # rest)))
               (filter (\<lambda>el. \<not> size_at ?h el < size_at ?h front) (front # rest))) =
          ifront # irest" and
    red: "reduce st =
            Inr (if length (filter (\<lambda>el. \<not> impact el < impact ifront) (ifront # irest)) < 2 then 0
                 else length (filter (\<lambda>el. \<not> impact el < impact ifront) (ifront # irest)), st)"
    by blast
  let ?core = "filter (\<lambda>el. \<not> size_at ?h el < size_at ?h front) (front # rest)"
  have sz: "size_at ?h p = degree st p" for p by (simp add: size_at_def degree_def)
  have ns: "set ?ls = node_set st" by (simp add: node_set_def)
  have sfr: "set (front # rest) = node_set st"
    using set_sort_desc [of "size_at ?h" ?ls] fr ns by simp
  from sort_desc_front [OF fr] have front: "front \<in> node_set st"
    and fmax: "\<forall>x\<in>node_set st. degree st x \<le> degree st front"
    unfolding ns sz by simp_all
  have fin_ns: "finite (node_set st)" by (simp add: node_set_def)
  have D: "hub_threshold st = degree st front"
    unfolding hub_threshold_def using fin_ns front fmax by (intro Max_eqI) auto
  have core: "set ?core = core_set st"
    unfolding core_set_def D set_filter sfr sz using fmax by (auto simp: not_less)
  have "distinct (front # rest)"
    using distinct_sort_desc [of "size_at ?h" ?ls] stored_pointers_distinct [OF ok] fr by simp
  then have dc: "distinct ?core" by (rule distinct_filter)
  have core_valid: "p < length ?h" if "p \<in> core_set st" for p
    using that stored_pointers_valid [OF ok] unfolding core_set_def ns [symmetric] list_all_iff
    by auto
  have imp: "impact (impact_of ?h ?core p) = of_nat (external_impact st p)" for p
    using core by (rule impact_of_external)
  have un: "unat (impact (impact_of ?h ?core p)) = external_impact st p" if "p \<in> core_set st" for p
    unfolding imp using external_impact_bound [OF fin core_valid [OF that]]
    by (rule unat_impact_small)
  from sort_desc_front [OF ifr] obtain v0 where
    v0: "v0 \<in> core_set st" "ifront = impact_of ?h ?core v0" and
    imax: "\<forall>p\<in>core_set st. impact (impact_of ?h ?core p) \<le> impact ifront"
    unfolding set_map core by auto
  have ifront: "unat (impact ifront) = external_impact st v0"
    unfolding v0(2) using v0(1) by (rule un)
  have emax: "\<forall>p\<in>core_set st. external_impact st p \<le> external_impact st v0"
    using imax un ifront by (simp add: word_le_nat_alt)
  have fin_core: "finite (core_set st)" using fin_ns by (simp add: core_set_def)
  have I: "impact_threshold st = external_impact st v0"
    unfolding impact_threshold_def using fin_core v0(1) emax by (intro Max_eqI) auto
  have keep: "(\<not> impact (impact_of ?h ?core p) < impact ifront) = (external_impact st p = impact_threshold st)"
    if "p \<in> set ?core" for p
    using that emax un [of p] ifront unfolding core I by (auto simp: word_less_nat_alt)
  have "length (filter (\<lambda>el. \<not> impact el < impact ifront) (ifront # irest)) =
        length (filter (\<lambda>el. \<not> impact el < impact ifront) (map (impact_of ?h ?core) ?core))"
    unfolding ifr [symmetric] by (rule filter_length_sort_desc)
  also have "\<dots> = length (filter (\<lambda>p. \<not> impact (impact_of ?h ?core p) < impact ifront) ?core)"
    by (simp only: filter_map length_map o_def)
  also have "\<dots> = length (filter (\<lambda>p. external_impact st p = impact_threshold st) ?core)"
    by (intro arg_cong [where f = length] filter_cong refl) (rule keep)
  also have "\<dots> = card ({p. external_impact st p = impact_threshold st} \<inter> set ?core)"
    using dc by (rule distinct_length_filter)
  also have "{p. external_impact st p = impact_threshold st} \<inter> set ?core = winners st"
    unfolding core winners_def by auto
  finally have n: "length (filter (\<lambda>el. \<not> impact el < impact ifront) (ifront # irest)) =
                card (winners st)" .
  show ?thesis unfolding red n reference_result_def by auto
qed

theorem reduce_is_reference_witness:
  "finalized scenario_b \<and> shops scenario_b \<noteq> [] \<and>
   reduce scenario_b = Inr (reference_result scenario_b, scenario_b) \<and>
   reference_result scenario_b = 2"
  using reduce_is_reference [OF finalized_scenario_b shops_scenario_b]
    finalized_scenario_b shops_scenario_b reduce_scenario_b
  by simp

text \<open>
  Claim C1 as it is worded, for every finalized store, fails on the empty one. The empty
  network is finalized and is what the loop leaves when its only line \<open>0 5\<close> is skipped;
  on it the reference value is 0, since there is no winner, while \<open>reduce\<close> reads
  \<open>front()\<close> of an empty vector and returns nothing.
\<close>

theorem reduce_empty_store_counterexample:
  "finalized empty_network \<and>
   read_roads 1 [Some (0, 5)] empty_network = Inr empty_network \<and>
   reduce empty_network = Inl Front_Of_Empty \<and>
   reference_result empty_network = 0 \<and>
   reduce empty_network \<noteq> Inr (reference_result empty_network, empty_network)"
proof -
  have fin: "finalized empty_network"
    using valid_empty_network by (simp add: finalized_def heap_links_def empty_network_def)
  have rd: "read_roads 1 [Some (0, 5)] empty_network = Inr empty_network"
    by simp
  have "winners empty_network = {}"
    by (simp add: winners_def core_set_def node_set_def empty_network_def)
  then have ref: "reference_result empty_network = 0"
    by (simp add: reference_result_def)
  from fin rd ref reduce_empty show ?thesis by simp
qed

text \<open>
  Claim C2, at the input on which the code departs from it: the line \<open>5 5\<close> read into
  the empty network. Both lookups fail, so the outer handler allocates a shop 5, the inner
  handler allocates a second shop 5 and registers it, and the registration of the first
  one finds the key taken. The registered node has one neighbour entry, not two, and two
  objects carry the identifier 5.
\<close>

theorem self_loop_on_fresh_identifier:
  "read_roads 1 [Some (5, 5)] empty_network =
     Inr \<lparr>heap = [\<lparr>identifier = 5, connected_shops = [1]\<rparr>,
                  \<lparr>identifier = 5, connected_shops = [0]\<rparr>],
          shops = [(5, 1)]\<rparr> \<and>
   size_at [\<lparr>identifier = 5, connected_shops = [1]\<rparr>,
            \<lparr>identifier = 5, connected_shops = [0]\<rparr>] 1 = 1 \<and>
   length (filter (\<lambda>s. identifier s = 5)
             [\<lparr>identifier = 5, connected_shops = [1]\<rparr>,
              \<lparr>identifier = 5, connected_shops = [0]\<rparr>]) = 2"
  by (simp add: add_road_def shop_at_def new_shop_def link_def push_back_def bind_r_def
      register_shop_def empty_network_def size_at_def)

text \<open>
  Claim C3. On a well-formed network with at least one stored node, \<open>reduce\<close> returns 0
  or a number that is at least 2, and never 1.
\<close>

theorem reduce_never_one:
  assumes "valid_network st" "shops st \<noteq> []"
  shows "\<exists>r. reduce st = Inr (r, st) \<and> (r = 0 \<or> 2 \<le> r) \<and> r \<noteq> 1"
proof -
  from reduce_returns [OF assms] obtain r where
    "reduce st = Inr (r, st)" "r = 0 \<or> 2 \<le> r" by blast
  then show ?thesis by (intro exI [of _ r]) auto
qed

theorem reduce_never_one_witness:
  "valid_network (two_shops 1 2) \<and> shops (two_shops 1 2) \<noteq> [] \<and>
   reduce (two_shops 1 2) = Inr (2, two_shops 1 2) \<and>
   (\<exists>r. reduce (two_shops 1 2) = Inr (r, two_shops 1 2) \<and> (r = 0 \<or> 2 \<le> r) \<and> r \<noteq> 1)"
proof -
  have v: "valid_network (two_shops 1 2)" by (simp add: valid_two_shops)
  have ne: "shops (two_shops 1 2) \<noteq> []" by (simp add: two_shops_def)
  from reduce_never_one [OF v ne] v ne reduce_two_shops [of 1 2] show ?thesis by simp
qed

text \<open>
  Claim C4, at the same input: after this one insertion \<open>number_of_connections\<close> is 1,
  not 2, since the second neighbour entry belongs to the shop that is not in the map.
\<close>

theorem connections_after_fresh_self_loop:
  "bind_r (read_roads 1 [Some (5, 5)] empty_network) number_of_connections = Inr 1"
  by (simp add: add_road_def shop_at_def new_shop_def link_def push_back_def bind_r_def
      register_shop_def empty_network_def number_of_connections_def)

text \<open>
  Claim C5. On a store with at least one node neither \<open>front()\<close> is read from an empty
  vector: the sorted vector of the stored pointers is not empty, its first element passes
  the filter, so there is at least one impact entry. When in addition the network is well
  formed (no pointer without an object), \<open>reduce\<close> returns a value.
\<close>

theorem reduce_total:
  assumes "shops st \<noteq> []"
  shows "reduce st \<noteq> Inl Front_Of_Empty \<and> (valid_network st \<longrightarrow> (\<exists>r. reduce st = Inr (r, st)))"
  using assms reduce_no_empty_front [of st] reduce_returns [of st] by blast

theorem reduce_total_witness:
  "shops scenario_b \<noteq> [] \<and> valid_network scenario_b \<and>
   reduce scenario_b \<noteq> Inl Front_Of_Empty \<and> (\<exists>r. reduce scenario_b = Inr (r, scenario_b))"
  using reduce_total [of scenario_b] valid_scenario_b shops_scenario_b by simp

text \<open>
  Claim C6. The program does not establish the non-empty store that \<open>reduce\<close> needs:
  with a header that passes both range checks and lines whose first identifier is outside
  1..1000, every line is skipped, the store stays empty with no shop allocated, and
  \<open>main\<close> still calls \<open>reduce\<close>, which reaches \<open>front()\<close> of the empty vector. The
  witness is the input with header \<open>2 1\<close> and the single line \<open>0 5\<close>.
\<close>

theorem main_reduces_empty_store:
  assumes "2 \<le> num_shops" "num_shops \<le> 1000" "1 \<le> num_roads" "num_roads \<le> 1000"
    and "length ls = unat num_roads"
    and "\<forall>l\<in>set ls. \<exists>shop_id road_to. l = Some (shop_id, road_to) \<and> (shop_id < 1 \<or> 1000 < shop_id)"
  shows "read_roads (unat num_roads) ls empty_network = Inr empty_network \<and>
         shops empty_network = [] \<and> heap empty_network = [] \<and>
         reduce empty_network = Inl Front_Of_Empty \<and>
         main (Some (num_shops, num_roads)) ls = Inl Front_Of_Empty"
proof -
  have rd: "read_roads (unat num_roads) ls empty_network = Inr empty_network"
    using assms(6) by (rule read_roads_all_skipped)
  have "stream_out empty_network = Inr []"
    by (simp add: stream_out_def empty_network_def)
  moreover have "number_of_connections empty_network = Inr 0"
    by (simp add: number_of_connections_def empty_network_def)
  moreover have "\<not> (num_shops < 2 \<or> num_shops > 1000)" "\<not> (num_roads < 1 \<or> num_roads > 1000)"
    using assms(1-4) by (simp_all only: not_less de_Morgan_disj simp_thms)
  ultimately have "main (Some (num_shops, num_roads)) ls = Inl Front_Of_Empty"
    using rd reduce_empty by (simp only: main_def bind_r_def option.case prod.case if_False sum.case)
  with rd reduce_empty show ?thesis by (simp add: empty_network_def)
qed

theorem main_reduces_empty_store_witness:
  "(2::64 word) \<le> 2 \<and> (2::64 word) \<le> 1000 \<and> (1::64 word) \<le> 1 \<and> (1::64 word) \<le> 1000 \<and>
   length [Some (0::64 word, 5::64 word)] = unat (1::64 word) \<and>
   read_roads (unat (1::64 word)) [Some (0, 5)] empty_network = Inr empty_network \<and>
   main (Some (2, 1)) [Some (0, 5)] = Inl Front_Of_Empty"
  using main_reduces_empty_store [of 2 1 "[Some (0, 5)]"] by simp

text \<open>
  Claim C7. One accepted line \<open>a b\<close> with two different identifiers, read into the
  empty network, allocates exactly two shops, each holding the other as its only
  neighbour. Both have degree 1 and form the core, both have impact 0 and are the
  winners, \<open>reduce\<close> returns 2, and so does \<open>main\<close> for the header \<open>2 1\<close>.
\<close>

theorem minimum_graph_reduces_to_two:
  assumes "a \<noteq> b" "1 \<le> a" "a \<le> 1000"
  shows "read_roads 1 [Some (a, b)] empty_network = Inr (two_shops a b) \<and>
         length (heap (two_shops a b)) = 2 \<and> node_set (two_shops a b) = {0, 1} \<and>
         degree (two_shops a b) 0 = 1 \<and> degree (two_shops a b) 1 = 1 \<and>
         core_set (two_shops a b) = {0, 1} \<and>
         external_impact (two_shops a b) 0 = 0 \<and> external_impact (two_shops a b) 1 = 0 \<and>
         winners (two_shops a b) = {0, 1} \<and>
         reduce (two_shops a b) = Inr (2, two_shops a b) \<and>
         main (Some (2, 1)) [Some (a, b)] = Inr 2"
proof -
  from assms have rng: "\<not> (a < 1 \<or> 1000 < a)"
    by (simp only: not_less de_Morgan_disj simp_thms)
  have rd: "read_roads (unat (1::64 word)) [Some (a, b)] empty_network = Inr (two_shops a b)"
    using read_two_shops [OF assms(1) rng] by simp
  have "stream_out (two_shops a b) = Inr [(a, b), (b, a)] \<or>
        stream_out (two_shops a b) = Inr [(b, a), (a, b)]"
    by (simp add: stream_out_def two_shops_def)
  moreover have "number_of_connections (two_shops a b) = Inr 2"
    by (simp add: number_of_connections_def two_shops_def)
  ultimately have "main (Some (2, 1)) [Some (a, b)] = Inr 2"
    using rd reduce_two_shops [of a b] by (auto simp: main_def bind_r_def)
  then show ?thesis
    using read_two_shops [OF assms(1) rng] node_set_two_shops [of a b] degree_two_shops [of a b]
      core_two_shops [of a b] impact_two_shops [of a b] winners_two_shops [of a b]
      reduce_two_shops [of a b]
    by (simp add: two_shops_def)
qed

theorem minimum_graph_reduces_to_two_witness:
  "(1::64 word) \<noteq> 2 \<and> (1::64 word) \<le> 1 \<and> (1::64 word) \<le> 1000 \<and>
   read_roads 1 [Some (1, 2)] empty_network =
     Inr \<lparr>heap = [\<lparr>identifier = 1, connected_shops = [1]\<rparr>,
                  \<lparr>identifier = 2, connected_shops = [0]\<rparr>],
          shops = [(1, 0), (2, 1)]\<rparr> \<and>
   main (Some (2, 1)) [Some (1, 2)] = Inr 2"
  using minimum_graph_reduces_to_two [of 1 2] by (simp add: two_shops_def)



text \<open>
  Claim C9. A call of \<open>reduce\<close> that returns leaves the state as it was, the map and every
  neighbour vector included. On a well-formed network with at least one stored node, a
  first call returns a result and the unchanged state, and a second call right after it
  returns the same result and the same state.
\<close>

theorem reduce_twice:
  "(reduce st = Inr (r', st') \<longrightarrow> shops st' = shops st \<and> heap st' = heap st) \<and>
   (valid_network st \<longrightarrow> shops st \<noteq> [] \<longrightarrow>
      (\<exists>r. reduce st = Inr (r, st) \<and>
         bind_r (reduce st) (\<lambda>(r1, st1). bind_r (reduce st1) (\<lambda>(r2, st2). Inr (r1, st1, r2, st2))) =
           Inr (r, st, r, st)))"
proof -
  have "\<exists>r. reduce st = Inr (r, st) \<and>
         bind_r (reduce st) (\<lambda>(r1, st1). bind_r (reduce st1) (\<lambda>(r2, st2). Inr (r1, st1, r2, st2))) =
           Inr (r, st, r, st)"
    if "valid_network st" "shops st \<noteq> []"
  proof -
    from reduce_returns [OF that] obtain r where r: "reduce st = Inr (r, st)" by blast
    then show ?thesis by (intro exI [of _ r]) (simp add: bind_r_def)
  qed
  moreover have "shops st' = shops st \<and> heap st' = heap st" if "reduce st = Inr (r', st')"
    using reduce_keeps_state [OF that] by simp
  ultimately show ?thesis by blast
qed

theorem reduce_twice_witness:
  "reduce scenario_b = Inr (2, scenario_b) \<and> valid_network scenario_b \<and> shops scenario_b \<noteq> [] \<and>
   bind_r (reduce scenario_b)
     (\<lambda>(r1, st1). bind_r (reduce st1) (\<lambda>(r2, st2). Inr (r1, st1, r2, st2))) =
     Inr (2, scenario_b, 2, scenario_b)"
  using reduce_twice [of scenario_b 2 scenario_b] valid_scenario_b shops_scenario_b
    reduce_scenario_b
  by (simp add: bind_r_def)

text \<open>
  Claim C10. In a well-formed network, \<open>register_shop\<close> of a shop whose identifier is
  already a key of the map returns the state as it was: the entry stays with the node
  registered before, and the shop passed in is not stored. Through the whole loop over
  the road lines an identifier that is mapped to a node stays mapped to that same node,
  so every key keeps the first node registered under it.
\<close>

theorem register_shop_keeps_first:
  assumes "valid_network st"
  shows "(p < length (heap st) \<longrightarrow> shop_at (identifier (heap st ! p)) st = Some q \<longrightarrow>
            register_shop p st = Inr st) \<and>
         (shop_at k st = Some a \<longrightarrow> read_roads n ls st = Inr st' \<longrightarrow> shop_at k st' = Some a)"
proof -
  from assms have srt: "sorted_wrt (<) (map fst (shops st))"
    by (simp add: valid_network_def store_ok_def)
  have "register_shop p st = Inr st"
    if "p < length (heap st)" "shop_at (identifier (heap st ! p)) st = Some q"
    using that map_insert_present [OF srt, of "identifier (heap st ! p)" q p]
    by (simp add: register_shop_def shop_at_def)
  moreover have "shop_at k st' = Some a"
    if "shop_at k st = Some a" "read_roads n ls st = Inr st'"
    using that read_roads_valid [OF assms, of n ls] by auto
  ultimately show ?thesis by blast
qed

theorem register_shop_keeps_first_witness:
  "valid_network \<lparr>heap = [\<lparr>identifier = 5, connected_shops = [1]\<rparr>,
                          \<lparr>identifier = 5, connected_shops = [0]\<rparr>], shops = [(5, 1)]\<rparr> \<and>
   register_shop 0 \<lparr>heap = [\<lparr>identifier = 5, connected_shops = [1]\<rparr>,
                            \<lparr>identifier = 5, connected_shops = [0]\<rparr>], shops = [(5, 1)]\<rparr> =
     Inr \<lparr>heap = [\<lparr>identifier = 5, connected_shops = [1]\<rparr>,
                  \<lparr>identifier = 5, connected_shops = [0]\<rparr>], shops = [(5, 1)]\<rparr> \<and>
   read_roads 1 [Some (5, 6)]
     \<lparr>heap = [\<lparr>identifier = 5, connected_shops = [1]\<rparr>,
              \<lparr>identifier = 5, connected_shops = [0]\<rparr>], shops = [(5, 1)]\<rparr> =
     Inr \<lparr>heap = [\<lparr>identifier = 5, connected_shops = [1]\<rparr>,
                  \<lparr>identifier = 5, connected_shops = [0, 2]\<rparr>,
                  \<lparr>identifier = 6, connected_shops = [1]\<rparr>], shops = [(5, 1), (6, 2)]\<rparr> \<and>
   shop_at 5 \<lparr>heap = [\<lparr>identifier = 5, connected_shops = [1]\<rparr>,
                  \<lparr>identifier = 5, connected_shops = [0, 2]\<rparr>,
                  \<lparr>identifier = 6, connected_shops = [1]\<rparr>], shops = [(5, 1), (6, 2)]\<rparr> = Some 1"
proof -
  let ?st = "\<lparr>heap = [\<lparr>identifier = 5, connected_shops = [1]\<rparr>,
                    \<lparr>identifier = 5, connected_shops = [0]\<rparr>], shops = [(5, 1)]\<rparr>"
  let ?st' = "\<lparr>heap = [\<lparr>identifier = 5, connected_shops = [1]\<rparr>,
                  \<lparr>identifier = 5, connected_shops = [0, 2]\<rparr>,
                  \<lparr>identifier = 6, connected_shops = [1]\<rparr>], shops = [(5, 1), (6, 2)]\<rparr>"
  have v: "valid_network ?st"
    by (simp add: valid_network_def valid_pointers_def store_ok_def entries_ok_def)
  have rd: "read_roads 1 [Some (5, 6)] ?st = Inr ?st'"
    by (simp add: add_road_def shop_at_def new_shop_def link_def push_back_def bind_r_def
        register_shop_def)
  have at: "shop_at 5 ?st = Some 1" by (simp add: shop_at_def)
  from register_shop_keeps_first [OF v, of 0 1 5 1 1 "[Some (5, 6)]" ?st'] v rd at
  show ?thesis by simp
qed

end
